theory Spec2Isabelle
  imports Complex_Main
begin

section \<open>Errors and numbers\<close>

text \<open>
  The program is a Python script. Its floats are read as real numbers (rounding is not
  part of the model), its exceptions are values of the type \<open>error\<close>, and a computation
  that may raise returns \<open>error + 'a\<close> with \<open>Inl\<close> for the exception.
\<close>

datatype error =
    ValueError
  | ZeroDivisionError
  | IndexError
  | UnboundLocalError
  | LibraryError nat

text \<open>Float division raises on a zero divisor; \<open>math.asin\<close> raises outside \<open>[-1, 1]\<close>.\<close>

definition py_div :: "real \<Rightarrow> real \<Rightarrow> error + real" where
  "py_div a b = (if b = 0 then Inl ZeroDivisionError else Inr (a / b))"

definition math_asin :: "real \<Rightarrow> error + real" where
  "math_asin x = (if x < - 1 \<or> 1 < x then Inl ValueError else Inr (arcsin x))"

section \<open>Geometry kernel\<close>

definition R_MEAN :: real where
  "R_MEAN = 6378.1"

definition to_rads :: "real \<Rightarrow> real" where
  "to_rads degrees = degrees * (pi / 180)"

definition RIGHT_ANGLE :: real where
  "RIGHT_ANGLE = to_rads 90"

definition calcCapAngle :: "real \<Rightarrow> real \<Rightarrow> error + real" where
  "calcCapAngle altitude term_angle =
     (let epsilon = to_rads term_angle in
      case py_div (sin (epsilon + RIGHT_ANGLE) * R_MEAN) (R_MEAN + altitude) of
        Inl e \<Rightarrow> Inl e
      | Inr q \<Rightarrow>
          (case math_asin q of
             Inl e \<Rightarrow> Inl e
           | Inr eta_FOV \<Rightarrow>
               (let lambda_FOV = 2 * (pi - (epsilon + RIGHT_ANGLE + eta_FOV))
                in Inr (lambda_FOV / 2))))"

text \<open>
  The half-angle as section 4.1 of the specification writes it, with no domain check:
  \<open>eta = asin (sin (\<epsilon> + 90\<degree>) \<cdot> R / (R + h))\<close>, \<open>lambda = 2 \<cdot> (\<pi> - (\<epsilon> + 90\<degree> + eta))\<close>,
  result \<open>lambda / 2\<close>, the elevation converted to radians first.
\<close>

definition spec_capHalfAngle :: "real \<Rightarrow> real \<Rightarrow> real" where
  "spec_capHalfAngle h elevation =
     (let eps = elevation * pi / 180;
          eta = arcsin (sin (eps + pi / 2) * R_MEAN / (R_MEAN + h));
          lam = 2 * (pi - (eps + pi / 2 + eta))
      in lam / 2)"


text \<open>
  The closed form of the value \<open>calcCapAngle\<close> returns when it returns, used in the
  proofs below: \<open>sin (\<epsilon> + 90\<degree>) = cos \<epsilon>\<close> and \<open>\<pi> - (\<epsilon> + \<pi>/2 + eta)\<close> is \<open>\<pi>/2 - \<epsilon> - eta\<close>.
\<close>

definition cap_closed :: "real \<Rightarrow> real \<Rightarrow> real" where
  "cap_closed h e = pi / 2 - to_rads e - arcsin (cos (to_rads e) * R_MEAN / (R_MEAN + h))"

section \<open>Footprint rasterizer\<close>

text \<open>
  A vertex is a pair (longitude, latitude), as in GeoJSON. The libraries the rasterizer
  calls (geog, numpy, shapely, h3) are not part of the program: they are the fields of a
  record the model takes as a parameter. \<open>'g\<close> is the type of a GeoJSON mapping of a
  polygon, \<open>'c\<close> the type of a cell identifier. A Python set of cells is a list read as a
  set; \<open>set.add\<close> is \<open>List.insert\<close>, so that no cell is held twice.
\<close>

type_synonym point = "real \<times> real"
type_synonym ring = "point list"

record ('g, 'c) libs =
  propagate :: "point \<Rightarrow> real \<Rightarrow> real \<Rightarrow> point"
    \<comment> \<open>\<open>geog.propagate (p, angles, d)\<close> for one angle of the array\<close>
  interp :: "real \<Rightarrow> real \<times> real \<Rightarrow> real \<times> real \<Rightarrow> real"
    \<comment> \<open>\<open>np.interp ([x], [x0, x1], [y0, y1]) [0]\<close>\<close>
  polygon_mapping :: "ring \<Rightarrow> error + 'g"
    \<comment> \<open>\<open>shapely.geometry.mapping (shapely.geometry.Polygon (ring))\<close>\<close>
  oriented_mapping :: "ring \<Rightarrow> error + 'g"
    \<comment> \<open>\<open>mapping (shapely.geometry.polygon.orient (Polygon (ring), 1.0))\<close>\<close>
  polyfill :: "'g \<Rightarrow> error + 'c list"
    \<comment> \<open>\<open>h3.polyfill (mapping, H3_RESOLUTION_LEVEL, True)\<close>\<close>

datatype event =
    PrintLatLng real real
  | PrintPolygon ring
  | PrintTime int

subsection \<open>Splitting at the antimeridian\<close>

definition straddles :: "point \<Rightarrow> point \<Rightarrow> bool" where
  "straddles first second \<longleftrightarrow>
     (fst first < 180 \<and> fst second > 180) \<or> (fst first > 180 \<and> fst second < 180)"

text \<open>The body of the loop over \<open>idx\<close>, for the edge from \<open>polygon[idx]\<close> to \<open>polygon[idx+1]\<close>.\<close>

definition split_edge ::
  "(real \<Rightarrow> real \<times> real \<Rightarrow> real \<times> real \<Rightarrow> real) \<Rightarrow> point \<Rightarrow> point \<Rightarrow> ring \<times> ring \<Rightarrow> ring \<times> ring"
where
  "split_edge ip first second polys =
     (case polys of (poly1, poly2) \<Rightarrow>
        if straddles first second then
          (let new_lat = ip 180 (fst first, fst second) (snd first, snd second)
           in (poly1 @ [(180, new_lat)], poly2 @ [(180, new_lat)]))
        else if fst first < 180 then (poly1 @ [first], poly2)
        else (poly1, poly2 @ [first]))"

text \<open>\<open>for idx in range (len (polygon) - 1)\<close>: one step for each pair of neighbours.\<close>

fun split_loop ::
  "(real \<Rightarrow> real \<times> real \<Rightarrow> real \<times> real \<Rightarrow> real) \<Rightarrow> ring \<Rightarrow> ring \<times> ring \<Rightarrow> ring \<times> ring"
where
  "split_loop ip (first # second # rest) polys =
     split_loop ip (second # rest) (split_edge ip first second polys)"
| "split_loop ip [v] polys = polys"
| "split_loop ip [] polys = polys"

definition wrap_point :: "point \<Rightarrow> point" where
  "wrap_point pt = (- 180 + (fst pt - 180), snd pt)"

text \<open>
  Lines 147 to 169: the two rings \<open>poly1\<close> and \<open>poly2_wrapped\<close>. \<open>poly1[0]\<close> and \<open>poly2[0]\<close>
  raise IndexError on an empty list.
\<close>

definition split_rings ::
  "(real \<Rightarrow> real \<times> real \<Rightarrow> real \<times> real \<Rightarrow> real) \<Rightarrow> ring \<Rightarrow> error + ring \<times> ring"
where
  "split_rings ip polygon =
     (case split_loop ip polygon ([], []) of (poly1, poly2) \<Rightarrow>
        (case poly1 of
           [] \<Rightarrow> Inl IndexError
         | a # _ \<Rightarrow>
             (case poly2 of
                [] \<Rightarrow> Inl IndexError
              | b # _ \<Rightarrow> Inr (poly1 @ [a], map wrap_point (poly2 @ [b])))))"

definition split_antimeridian_polygon ::
  "('g, 'c) libs \<Rightarrow> ring \<Rightarrow> error + 'g \<times> 'g"
where
  "split_antimeridian_polygon L polygon =
     (case split_rings (interp L) polygon of
        Inl e \<Rightarrow> Inl e
      | Inr (poly1, poly2_wrapped) \<Rightarrow>
          (case polygon_mapping L poly1 of
             Inl e \<Rightarrow> Inl e
           | Inr mapping1 \<Rightarrow>
               (case oriented_mapping L poly2_wrapped of
                  Inl e \<Rightarrow> Inl e
                | Inr mapping2 \<Rightarrow> Inr (mapping1, mapping2))))"

subsection \<open>The footprint ring and its cells\<close>

text \<open>
  \<open>np.linspace (start, stop, num)\<close>: \<open>num\<close> samples from \<open>start\<close> to \<open>stop\<close>, both ends
  included, \<open>(stop - start) / (num - 1)\<close> apart.
\<close>

definition linspace :: "real \<Rightarrow> real \<Rightarrow> nat \<Rightarrow> real list" where
  "linspace start stop num =
     map (\<lambda>i. start + real i * ((stop - start) / real (num - 1))) [0..<num]"

text \<open>Lines 178 to 186: the ring handed to shapely.\<close>

definition footprint_ring :: "('g, 'c) libs \<Rightarrow> real \<Rightarrow> real \<Rightarrow> real \<Rightarrow> ring" where
  "footprint_ring L lat lng angle =
     (let p = (lng, lat);
          arc_length = R_MEAN * angle;
          n_points = 20;
          d = arc_length * 1000;
          angles = linspace 0 360 n_points
      in map (\<lambda>a. propagate L p a d) angles)"

fun needs_split :: "ring \<Rightarrow> bool" where
  "needs_split [] = False"
| "needs_split (point # rest) = (if fst point > 180 then True else needs_split rest)"

definition update :: "'c list \<Rightarrow> 'c list \<Rightarrow> 'c list" where
  "update cells new = fold List.insert new cells"

text \<open>
  The body of the second \<open>try\<close>: the cells gathered when it ends, and the exception that
  ended it, if any. \<open>cells\<close> is updated in place, so what was added before an exception
  stays.
\<close>

definition split_fill :: "('g, 'c) libs \<Rightarrow> ring \<Rightarrow> 'c list \<Rightarrow> 'c list \<times> error option" where
  "split_fill L polygon cells =
     (case split_antimeridian_polygon L polygon of
        Inl e \<Rightarrow> (cells, Some e)
      | Inr (first, second) \<Rightarrow>
          (case polyfill L first of
             Inl e \<Rightarrow> (cells, Some e)
           | Inr cs1 \<Rightarrow>
               (case polyfill L second of
                  Inl e \<Rightarrow> (update cells cs1, Some e)
                | Inr cs2 \<Rightarrow> (update (update cells cs1) cs2, None))))"

text \<open>
  \<open>get_cell_ids_h3\<close> returns what it printed and either the exception that left it or the
  cells. The first \<open>try\<close> catches ValueError only and leaves \<open>mapping\<close> unbound (\<open>None\<close>)
  when it does; the second \<open>try\<close> has a bare \<open>except\<close>.
\<close>

definition get_cell_ids_h3 ::
  "('g, 'c) libs \<Rightarrow> real \<Rightarrow> real \<Rightarrow> real \<Rightarrow> event list \<times> (error + 'c list)"
where
  "get_cell_ids_h3 L lat lng angle =
     (let polygon = footprint_ring L lat lng angle in
      case (case polygon_mapping L polygon of
              Inr m \<Rightarrow> ([], Inr (Some m))
            | Inl e \<Rightarrow>
                if e = ValueError then ([PrintLatLng lat lng, PrintPolygon polygon], Inr None)
                else ([], Inl e))
      of
        (out, Inl e) \<Rightarrow> (out, Inl e)
      | (out, Inr mapping) \<Rightarrow>
          if needs_split polygon then
            (case split_fill L polygon [] of
               (cells, Some e) \<Rightarrow> (out @ [PrintLatLng lat lng], Inr cells)
             | (cells, None) \<Rightarrow> (out, Inr cells))
          else
            (case mapping of
               None \<Rightarrow> (out, Inl UnboundLocalError)
             | Some m \<Rightarrow> (out, polyfill L m)))"

section \<open>Coverage accumulator and the partitioned driver\<close>

record subpoint =
  elevation_km :: real
  latitude :: real
  longitude :: real

type_synonym 'c hist = "'c \<rightharpoonup> int"

text \<open>Reading a \<open>defaultdict (int)\<close>: a missing key counts 0.\<close>

definition count :: "'c hist \<Rightarrow> 'c \<Rightarrow> int" where
  "count coverage cell = (case coverage cell of None \<Rightarrow> 0 | Some n \<Rightarrow> n)"

text \<open>\<open>coverage[cell] += 1\<close>\<close>

definition increment :: "'c \<Rightarrow> 'c hist \<Rightarrow> 'c hist" where
  "increment cell coverage = coverage(cell \<mapsto> count coverage cell + 1)"

text \<open>
  Lines 283 to 289, for one satellite. The statement \<open>Exception ("empty region returned")\<close>
  builds an exception object and drops it: the model binds it and does not use it.
\<close>

definition sat_body ::
  "('g, 'c) libs \<Rightarrow> subpoint \<Rightarrow> event list \<times> 'c list \<Rightarrow> event list \<times> (error + 'c list)"
where
  "sat_body L sat st =
     (case st of (out, coverage_set) \<Rightarrow>
        (case calcCapAngle (elevation_km sat) 35 of
           Inl e \<Rightarrow> (out, Inl e)
         | Inr angle \<Rightarrow>
             (case get_cell_ids_h3 L (latitude sat) (longitude sat) angle of
                (printed, Inl e) \<Rightarrow> (out @ printed, Inl e)
              | (printed, Inr cells) \<Rightarrow>
                  (let dropped = (if length cells = 0 then [''empty region returned''] else [])
                   in (out @ printed, Inr (fold List.insert cells coverage_set))))))"

fun sat_loop ::
  "('g, 'c) libs \<Rightarrow> subpoint list \<Rightarrow> event list \<times> 'c list \<Rightarrow> event list \<times> (error + 'c list)"
where
  "sat_loop L [] st = (fst st, Inr (snd st))"
| "sat_loop L (sat # sats) st =
     (case sat_body L sat st of
        (out, Inl e) \<Rightarrow> (out, Inl e)
      | (out, Inr coverage_set) \<Rightarrow> sat_loop L sats (out, coverage_set))"

text \<open>Lines 290 and 291.\<close>

definition accumulate :: "'c hist \<Rightarrow> 'c list \<Rightarrow> 'c hist" where
  "accumulate coverage coverage_set = fold increment coverage_set coverage"

text \<open>
  One pass of the loop over \<open>i\<close>, lines 277 to 291. \<open>subpoints_at\<close> is the position
  provider: the sub-points of the operational satellites at a minute of 21 June 2020.
\<close>

definition step ::
  "('g, 'c) libs \<Rightarrow> (int \<Rightarrow> subpoint list) \<Rightarrow> int \<Rightarrow> nat \<Rightarrow> event list \<times> 'c hist
     \<Rightarrow> event list \<times> (error + 'c hist)"
where
  "step L subpoints_at start i st =
     (case st of (out, coverage) \<Rightarrow>
        (let time = start + int i;
             out1 = (if i mod 30 = 0 then out @ [PrintTime time] else out)
         in case sat_loop L (subpoints_at time) (out1, []) of
              (out2, Inl e) \<Rightarrow> (out2, Inl e)
            | (out2, Inr coverage_set) \<Rightarrow> (out2, Inr (accumulate coverage coverage_set))))"

fun time_loop ::
  "('g, 'c) libs \<Rightarrow> (int \<Rightarrow> subpoint list) \<Rightarrow> int \<Rightarrow> nat list \<Rightarrow> event list \<times> 'c hist
     \<Rightarrow> event list \<times> (error + 'c hist)"
where
  "time_loop L subpoints_at start [] st = (fst st, Inr (snd st))"
| "time_loop L subpoints_at start (i # is) st =
     (case step L subpoints_at start i st of
        (out, Inl e) \<Rightarrow> (out, Inl e)
      | (out, Inr coverage) \<Rightarrow> time_loop L subpoints_at start is (out, coverage))"

definition TIME_PER_PROCESS :: nat where
  "TIME_PER_PROCESS = 1440 div 4"

definition START_TIME :: "int \<Rightarrow> int" where
  "START_TIME process = process * int TIME_PER_PROCESS"

text \<open>The run of one process, from the empty \<open>coverage\<close> to the histogram it writes.\<close>

definition main_loop ::
  "('g, 'c) libs \<Rightarrow> (int \<Rightarrow> subpoint list) \<Rightarrow> int \<Rightarrow> event list \<times> (error + 'c hist)"
where
  "main_loop L subpoints_at process =
     time_loop L subpoints_at (START_TIME process) [0..<TIME_PER_PROCESS] ([], Map.empty)"

subsection \<open>The window, the merge and the minutes of a process\<close>

text \<open>The minutes \<open>START_TIME + i\<close> that the loop of a process passes to \<open>ts.utc\<close>, in order.\<close>

definition simulated_minutes :: "int \<Rightarrow> int list" where
  "simulated_minutes process = map (\<lambda>i. START_TIME process + int i) [0..<TIME_PER_PROCESS]"

text \<open>
  Modelled from the spec: the run over a window of \<open>n\<close> minutes from minute \<open>start\<close>,
  which the program has for the four quarters of the day only (\<open>main_loop\<close>), and the
  unpartitioned run over the whole day. Both are the loop of the program.
\<close>

definition window ::
  "('g, 'c) libs \<Rightarrow> (int \<Rightarrow> subpoint list) \<Rightarrow> int \<Rightarrow> nat \<Rightarrow> event list \<times> (error + 'c hist)"
where
  "window L subpoints_at start n =
     time_loop L subpoints_at start [0..<n] ([], Map.empty)"

definition full_window ::
  "('g, 'c) libs \<Rightarrow> (int \<Rightarrow> subpoint list) \<Rightarrow> event list \<times> (error + 'c hist)"
where
  "full_window L subpoints_at = window L subpoints_at 0 1440"

text \<open>
  Modelled from the spec: the merge step, which is not part of the program, sums the
  histograms of the partitions cell by cell (section 5). A process that raises writes no
  file, so a merge with the result of such a run is that exception.
\<close>

definition merge :: "'c hist \<Rightarrow> 'c hist \<Rightarrow> 'c hist" where
  "merge a b =
     (\<lambda>cell. case a cell of
                None \<Rightarrow> b cell
              | Some x \<Rightarrow> (case b cell of None \<Rightarrow> Some x | Some y \<Rightarrow> Some (x + y)))"

definition merge_runs :: "error + 'c hist \<Rightarrow> error + 'c hist \<Rightarrow> error + 'c hist" where
  "merge_runs r1 r2 =
     (case r1 of
        Inl e \<Rightarrow> Inl e
      | Inr a \<Rightarrow> (case r2 of Inl e \<Rightarrow> Inl e | Inr b \<Rightarrow> Inr (merge a b)))"

subsection \<open>What one satellite and one step contribute\<close>

text \<open>
  The cells one satellite yields (lines 283 to 285), the set a step gathers from its
  satellites, and the histogram after the steps at a list of minutes, without the printed
  output: these are the results of \<open>sat_body\<close>, \<open>sat_loop\<close> and \<open>time_loop\<close>, as the
  lemmas \<open>snd_sat_body\<close>, \<open>snd_sat_loop\<close> and \<open>snd_time_loop\<close> prove.
\<close>

definition sat_cells :: "('g, 'c) libs \<Rightarrow> subpoint \<Rightarrow> error + 'c list" where
  "sat_cells L sat =
     (case calcCapAngle (elevation_km sat) 35 of
        Inl e \<Rightarrow> Inl e
      | Inr angle \<Rightarrow> snd (get_cell_ids_h3 L (latitude sat) (longitude sat) angle))"

fun gather :: "('g, 'c) libs \<Rightarrow> subpoint list \<Rightarrow> 'c list \<Rightarrow> error + 'c list" where
  "gather L [] coverage_set = Inr coverage_set"
| "gather L (sat # sats) coverage_set =
     (case sat_cells L sat of
        Inl e \<Rightarrow> Inl e
      | Inr cells \<Rightarrow> gather L sats (fold List.insert cells coverage_set))"

fun run :: "('g, 'c) libs \<Rightarrow> (int \<Rightarrow> subpoint list) \<Rightarrow> int list \<Rightarrow> 'c hist \<Rightarrow> error + 'c hist" where
  "run L subpoints_at [] coverage = Inr coverage"
| "run L subpoints_at (t # ts) coverage =
     (case gather L (subpoints_at t) [] of
        Inl e \<Rightarrow> Inl e
      | Inr coverage_set \<Rightarrow> run L subpoints_at ts (accumulate coverage coverage_set))"

text \<open>A cell is covered by a satellite when the rasterizer returns it for that satellite.\<close>

definition covers :: "('g, 'c) libs \<Rightarrow> subpoint \<Rightarrow> 'c \<Rightarrow> bool" where
  "covers L sat cell = (case sat_cells L sat of Inl e \<Rightarrow> False | Inr cells \<Rightarrow> cell \<in> set cells)"

fun covered :: "('g, 'c) libs \<Rightarrow> subpoint list \<Rightarrow> 'c \<Rightarrow> bool" where
  "covered L [] cell = False"
| "covered L (sat # sats) cell = (covers L sat cell \<or> covered L sats cell)"

subsection \<open>Stand-ins for the libraries, for concrete runs\<close>

text \<open>
  \<open>np.interp\<close> for one sample \<open>x\<close> and two data points, as numpy computes it: a sample
  above the last x-coordinate gets the last value, a sample below the first x-coordinate
  the first value, and only a sample between the two is interpolated on the straight
  line. With decreasing x-coordinates (an edge that crosses from above 180 to below) the
  sample 180 is above the last x-coordinate, so the result is the value of the second
  point. Then a record of library functions built from a propagation, a polygon
  constructor and a fill.
\<close>

definition np_interp :: "real \<Rightarrow> real \<times> real \<Rightarrow> real \<times> real \<Rightarrow> real" where
  "np_interp x xp fp =
     (if x > snd xp then snd fp
      else if x < fst xp then fst fp
      else if x = snd xp then snd fp
      else if x = fst xp then fst fp
      else (snd fp - fst fp) / (snd xp - fst xp) * (x - fst xp) + fst fp)"

definition test_libs ::
  "(point \<Rightarrow> real \<Rightarrow> real \<Rightarrow> point) \<Rightarrow> (ring \<Rightarrow> error + ring) \<Rightarrow> (ring \<Rightarrow> error + nat list)
     \<Rightarrow> (ring, nat) libs"
where
  "test_libs pr pm pf =
     \<lparr>propagate = pr, interp = np_interp, polygon_mapping = pm, oriented_mapping = pm,
      polyfill = pf\<rparr>"

text \<open>
  A propagation that stays at the centre, one that moves on a plane, and one on a plane
  with an error that grows with the bearing, so that bearing 360 does not give the point
  of bearing 0.
\<close>

definition stay :: "point \<Rightarrow> real \<Rightarrow> real \<Rightarrow> point" where
  "stay p a d = p"



definition sat0 :: subpoint where
  "sat0 = \<lparr>elevation_km = 550, latitude = 0, longitude = 0\<rparr>"

subsection \<open>The crossing point\<close>

text \<open>
  \<open>new_point\<close> of \<open>split_antimeridian_polygon\<close>: the vertex that \<open>split_edge\<close> appends to
  both rings for an edge that straddles longitude 180.
\<close>

definition new_point ::
  "(real \<Rightarrow> real \<times> real \<Rightarrow> real \<times> real \<Rightarrow> real) \<Rightarrow> point \<Rightarrow> point \<Rightarrow> point"
where
  "new_point ip first second = (180, ip 180 (fst first, fst second) (snd first, snd second))"
section \<open>The geometry kernel: proofs\<close>

lemma R_MEAN_pos: "0 < R_MEAN"
  by (simp add: R_MEAN_def)

lemma sin_shift: "sin (to_rads e + RIGHT_ANGLE) = cos (to_rads e)"
  by (simp add: RIGHT_ANGLE_def to_rads_def sin_add)

lemma ratio_bound:
  assumes "0 \<le> h"
  shows "\<bar>cos x * R_MEAN / (R_MEAN + h)\<bar> \<le> 1"
proof -
  have "\<bar>cos x * R_MEAN\<bar> = \<bar>cos x\<bar> * R_MEAN"
    using R_MEAN_pos by (simp add: abs_mult)
  also have "\<dots> \<le> 1 * R_MEAN"
    using R_MEAN_pos by (intro mult_right_mono) auto
  also have "\<dots> \<le> R_MEAN + h" using assms by simp
  finally have "\<bar>cos x * R_MEAN\<bar> \<le> R_MEAN + h" .
  moreover have "0 < R_MEAN + h" using assms R_MEAN_pos by simp
  ultimately show ?thesis by (simp add: abs_divide)
qed

lemma calcCapAngle_nonneg_alt:
  assumes "0 \<le> h"
  shows "calcCapAngle h e = Inr (cap_closed h e)"
proof -
  have nz: "R_MEAN + h \<noteq> 0" using assms R_MEAN_pos by simp
  have b: "\<bar>cos (to_rads e) * R_MEAN / (R_MEAN + h)\<bar> \<le> 1"
    by (rule ratio_bound [OF assms])
  then have dom: "\<not> (cos (to_rads e) * R_MEAN / (R_MEAN + h) < - 1 \<or> 1 < cos (to_rads e) * R_MEAN / (R_MEAN + h))"
    by linarith
  have ra: "RIGHT_ANGLE = pi / 2" by (simp add: RIGHT_ANGLE_def to_rads_def)
  show ?thesis
    unfolding calcCapAngle_def Let_def sin_shift py_div_def math_asin_def cap_closed_def
    using nz dom by (simp add: ra)
qed

lemma cap_closed_upper:
  assumes "0 \<le> h" "0 \<le> e" "e \<le> 90"
  shows "cap_closed h e \<le> pi / 2"
proof -
  have e0: "0 \<le> to_rads e" using assms by (simp add: to_rads_def)
  have e1: "to_rads e \<le> pi / 2" using assms by (simp add: to_rads_def)
  have "0 \<le> cos (to_rads e)" using e0 e1 by (intro cos_ge_zero) auto
  then have "0 \<le> cos (to_rads e) * R_MEAN / (R_MEAN + h)"
    using assms R_MEAN_pos by simp
  moreover have "cos (to_rads e) * R_MEAN / (R_MEAN + h) \<le> 1"
    using ratio_bound [OF assms(1), of "to_rads e"] by linarith
  ultimately have "arcsin 0 \<le> arcsin (cos (to_rads e) * R_MEAN / (R_MEAN + h))"
    by (intro arcsin_le_arcsin) auto
  then show ?thesis using e0 by (simp add: cap_closed_def)
qed

lemma cap_closed_pos:
  assumes "0 < h" "0 \<le> e" "e < 90"
  shows "0 < cap_closed h e"
proof -
  let ?x = "to_rads e"
  have e0: "0 \<le> ?x" using assms by (simp add: to_rads_def)
  have e1: "?x < pi / 2" using assms by (simp add: to_rads_def)
  have cpos: "0 < cos ?x" using e0 e1 by (intro cos_gt_zero_pi) auto
  have kpos: "0 < R_MEAN + h" using assms R_MEAN_pos by simp
  have "R_MEAN / (R_MEAN + h) < 1" using assms kpos by simp
  then have "cos ?x * (R_MEAN / (R_MEAN + h)) < cos ?x * 1"
    using cpos by (intro mult_strict_left_mono) auto
  then have lt: "cos ?x * R_MEAN / (R_MEAN + h) < sin (pi / 2 - ?x)"
    by (simp add: sin_diff)
  have "- 1 \<le> cos ?x * R_MEAN / (R_MEAN + h)"
    using ratio_bound [of h ?x] assms by linarith
  then have "arcsin (cos ?x * R_MEAN / (R_MEAN + h)) < arcsin (sin (pi / 2 - ?x))"
    using lt by (intro arcsin_less_arcsin) auto
  also have "\<dots> = pi / 2 - ?x" using e0 e1 by (intro arcsin_sin) auto
  finally show ?thesis by (simp add: cap_closed_def)
qed

lemma cap_closed_mono_alt:
  assumes "0 \<le> h" "h \<le> h'" "0 \<le> e" "e \<le> 90"
  shows "cap_closed h e \<le> cap_closed h' e"
proof -
  let ?x = "to_rads e"
  have e0: "0 \<le> ?x" using assms by (simp add: to_rads_def)
  have e1: "?x \<le> pi / 2" using assms by (simp add: to_rads_def)
  have c0: "0 \<le> cos ?x" using e0 e1 by (intro cos_ge_zero) auto
  have "R_MEAN / (R_MEAN + h') \<le> R_MEAN / (R_MEAN + h)"
    using assms R_MEAN_pos by (intro divide_left_mono) (auto intro: mult_pos_pos add_pos_nonneg)
  then have "cos ?x * (R_MEAN / (R_MEAN + h')) \<le> cos ?x * (R_MEAN / (R_MEAN + h))"
    using c0 by (rule mult_left_mono)
  then have le: "cos ?x * R_MEAN / (R_MEAN + h') \<le> cos ?x * R_MEAN / (R_MEAN + h)" by simp
  have "0 \<le> h'" using assms by simp
  then have "- 1 \<le> cos ?x * R_MEAN / (R_MEAN + h')"
    using ratio_bound [of h' ?x] by linarith
  moreover have "cos ?x * R_MEAN / (R_MEAN + h) \<le> 1"
    using ratio_bound [of h ?x] assms by linarith
  ultimately have "arcsin (cos ?x * R_MEAN / (R_MEAN + h')) \<le> arcsin (cos ?x * R_MEAN / (R_MEAN + h))"
    using le by (intro arcsin_le_arcsin) auto
  then show ?thesis by (simp add: cap_closed_def)
qed


lemma cap_closed_antimono_elev:
  assumes h: "0 < h" and e: "0 \<le> e" "e \<le> e'" "e' < 90"
  shows "cap_closed h e' \<le> cap_closed h e"
proof -
  define k where "k = R_MEAN / (R_MEAN + h)"
  have k0: "0 < k" using h R_MEAN_pos by (simp add: k_def)
  have k1: "k < 1" using h R_MEAN_pos by (simp add: k_def)
  define g where "g = (\<lambda>x. x + arcsin (k * cos x))"
  have a0: "0 \<le> to_rads e" using e by (simp add: to_rads_def)
  have ab: "to_rads e \<le> to_rads e'" using e by (simp add: to_rads_def)
  have b1: "to_rads e' < pi / 2" using e by (simp add: to_rads_def)
  have "g (to_rads e) \<le> g (to_rads e')"
  proof (rule DERIV_nonneg_imp_nondecreasing [OF ab])
    fix x assume x: "to_rads e \<le> x" "x \<le> to_rads e'"
    then have x0: "0 \<le> x" and x1: "x < pi / 2" using a0 b1 by auto
    have c0: "0 < cos x" using x0 x1 by (intro cos_gt_zero_pi) auto
    have s0: "0 \<le> sin x" using x0 x1 by (intro sin_ge_zero) auto
    have kc0: "- 1 < k * cos x" using k0 c0 by (smt (verit) mult_pos_pos)
    have "k * cos x \<le> k * 1" using k0 by (intro mult_left_mono) auto
    then have kc1: "k * cos x < 1" using k1 by simp
    let ?D = "sqrt (1 - (k * cos x)\<^sup>2)"
    have sq: "(k * sin x)\<^sup>2 + (k * cos x)\<^sup>2 = k\<^sup>2"
    proof -
      have "(k * sin x)\<^sup>2 + (k * cos x)\<^sup>2 = k\<^sup>2 * ((sin x)\<^sup>2 + (cos x)\<^sup>2)"
        by (simp only: power_mult_distrib distrib_left)
      also have "\<dots> = k\<^sup>2" by (simp only: sin_cos_squared_add mult_1_right)
      finally show ?thesis .
    qed
    have "k\<^sup>2 \<le> 1" using k0 k1 by (simp add: power_le_one)
    then have "(k * sin x)\<^sup>2 \<le> 1 - (k * cos x)\<^sup>2" using sq by linarith
    then have le: "k * sin x \<le> ?D" by (rule real_le_rsqrt)
    have "(k * cos x)\<^sup>2 < 1" using kc0 kc1 by (simp add: abs_square_less_1 abs_less_iff)
    then have Dpos: "0 < ?D" by simp
    have d1: "((\<lambda>x. k * cos x) has_real_derivative k * - sin x) (at x)"
      by (auto intro!: derivative_eq_intros)
    have d2: "((\<lambda>x. arcsin (k * cos x)) has_real_derivative
                inverse ?D * (k * - sin x)) (at x)"
      by (rule DERIV_chain2 [OF DERIV_arcsin [OF kc0 kc1] d1])
    have d: "(g has_real_derivative (1 + inverse ?D * (k * - sin x))) (at x)"
      unfolding g_def by (rule DERIV_add [OF DERIV_ident d2])
    have "inverse ?D * (k * sin x) \<le> 1"
      using le Dpos by (simp add: field_simps)
    then have "0 \<le> 1 + inverse ?D * (k * - sin x)" by simp
    with d show "\<exists>y. (g has_real_derivative y) (at x) \<and> 0 \<le> y" by blast
  qed
  then show ?thesis
    by (simp add: g_def cap_closed_def k_def mult.commute)
qed

text \<open>
  Claim C2. For every altitude \<open>h > 0\<close> and every elevation angle, \<open>calcCapAngle\<close> raises
  nothing and returns the half-angle of the specification: \<open>lambda / 2\<close> with
  \<open>eta = asin (sin (\<epsilon> + 90\<degree>) \<cdot> R_MEAN / (R_MEAN + h))\<close> and
  \<open>lambda = 2 \<cdot> (\<pi> - (\<epsilon> + 90\<degree> + eta))\<close>, the elevation in radians.
\<close>

theorem calcCapAngle_matches_spec:
  assumes "0 < h"
  shows "calcCapAngle h e = Inr (spec_capHalfAngle h e)"
proof -
  have "calcCapAngle h e = Inr (cap_closed h e)"
    using assms by (simp add: calcCapAngle_nonneg_alt)
  moreover have "cap_closed h e = spec_capHalfAngle h e"
    by (simp add: cap_closed_def spec_capHalfAngle_def Let_def to_rads_def sin_add)
  ultimately show ?thesis by simp
qed

theorem calcCapAngle_matches_spec_witness:
  "(0::real) < 550 \<and> calcCapAngle 550 35 = Inr (spec_capHalfAngle 550 35)"
  using calcCapAngle_matches_spec [of 550 35] by simp

text \<open>
  In exact arithmetic, for altitude \<open>> 0\<close> and \<open>0\<degree> \<le> elevation < 90\<degree>\<close>, the value of the
  formula is in \<open>(0, \<pi>/2]\<close>, does not grow with the elevation and does not shrink with the
  altitude. The program computes in double precision, and this lemma does not bound its
  rounded results: next to the ends of the range the subtraction in \<open>lambda_FOV\<close> cancels,
  and between neighbouring doubles the order of two results can differ from the order of
  the exact values.
\<close>

lemma cap_angle_exact_range_monotone:
  assumes "0 < altitude" "0 \<le> elevation" "elevation < 90"
  shows "\<exists>v. calcCapAngle altitude elevation = Inr v \<and> 0 < v \<and> v \<le> pi / 2 \<and>
           (\<forall>elevation'. elevation \<le> elevation' \<and> elevation' < 90 \<longrightarrow>
              (\<exists>v'. calcCapAngle altitude elevation' = Inr v' \<and> v' \<le> v)) \<and>
           (\<forall>altitude'. altitude \<le> altitude' \<longrightarrow>
              (\<exists>v'. calcCapAngle altitude' elevation = Inr v' \<and> v \<le> v'))"
proof -
  let ?v = "cap_closed altitude elevation"
  have ret: "calcCapAngle altitude elevation = Inr ?v"
    using assms by (simp add: calcCapAngle_nonneg_alt)
  have pos: "0 < ?v"
    using assms by (rule cap_closed_pos)
  have upper: "?v \<le> pi / 2"
    using assms by (intro cap_closed_upper) auto
  have elev: "\<exists>v'. calcCapAngle altitude elevation' = Inr v' \<and> v' \<le> ?v"
    if "elevation \<le> elevation' \<and> elevation' < 90" for elevation'
  proof -
    have "cap_closed altitude elevation' \<le> ?v"
      using assms that by (intro cap_closed_antimono_elev) auto
    moreover have "calcCapAngle altitude elevation' = Inr (cap_closed altitude elevation')"
      using assms by (simp add: calcCapAngle_nonneg_alt)
    ultimately show ?thesis by blast
  qed
  have alt: "\<exists>v'. calcCapAngle altitude' elevation = Inr v' \<and> ?v \<le> v'"
    if "altitude \<le> altitude'" for altitude'
  proof -
    have "?v \<le> cap_closed altitude' elevation"
      using assms that by (intro cap_closed_mono_alt) auto
    moreover have "calcCapAngle altitude' elevation = Inr (cap_closed altitude' elevation)"
      using assms that by (simp add: calcCapAngle_nonneg_alt)
    ultimately show ?thesis by blast
  qed
  show ?thesis
    using ret pos upper elev alt by blast
qed

text \<open>
  Claim C6 says that altitude \<open>0\<close> with elevation \<open>90\<degree>\<close> raises a domain error. It does not:
  the argument of \<open>asin\<close> is \<open>sin 180\<degree> \<cdot> R_MEAN / R_MEAN = 0\<close>, and the function returns the
  angle \<open>0\<close>.
\<close>

theorem calcCapAngle_degenerate_returns_zero: "calcCapAngle 0 90 = Inr 0"
  by (simp add: calcCapAngle_def to_rads_def RIGHT_ANGLE_def py_div_def math_asin_def R_MEAN_def)


text \<open>
  Claim C6, amended. At altitude \<open>0\<close> and elevation \<open>90\<degree>\<close> the computation raises nothing and
  returns \<open>0\<close>. It raises ValueError (from \<open>math.asin\<close>) exactly when \<open>R_MEAN + altitude\<close> is
  not \<open>0\<close> and the argument \<open>sin (\<epsilon> + 90\<degree>) \<cdot> R_MEAN / (R_MEAN + altitude)\<close> is outside
  \<open>[-1, 1]\<close>, which no altitude \<open>\<ge> 0\<close> allows.
\<close>

theorem calcCapAngle_raises:
  "calcCapAngle 0 90 = Inr 0 \<and>
   (calcCapAngle altitude term_angle = Inl ValueError \<longleftrightarrow>
      R_MEAN + altitude \<noteq> 0 \<and>
      1 < \<bar>sin (to_rads term_angle + RIGHT_ANGLE) * R_MEAN / (R_MEAN + altitude)\<bar>) \<and>
   (0 \<le> altitude \<longrightarrow> (\<exists>v. calcCapAngle altitude term_angle = Inr v))"
proof (intro conjI impI)
  show "calcCapAngle 0 90 = Inr 0"
    by (simp add: calcCapAngle_def to_rads_def RIGHT_ANGLE_def py_div_def math_asin_def R_MEAN_def)
  define q where "q = sin (to_rads term_angle + RIGHT_ANGLE) * R_MEAN / (R_MEAN + altitude)"
  have "calcCapAngle altitude term_angle = Inl ValueError \<longleftrightarrow>
      R_MEAN + altitude \<noteq> 0 \<and> (q < - 1 \<or> 1 < q)"
    unfolding calcCapAngle_def Let_def py_div_def math_asin_def q_def by simp
  also have "(q < - 1 \<or> 1 < q) \<longleftrightarrow> 1 < \<bar>q\<bar>" by linarith
  finally show "calcCapAngle altitude term_angle = Inl ValueError \<longleftrightarrow>
      R_MEAN + altitude \<noteq> 0 \<and>
      1 < \<bar>sin (to_rads term_angle + RIGHT_ANGLE) * R_MEAN / (R_MEAN + altitude)\<bar>"
    unfolding q_def .
  assume "0 \<le> altitude"
  then show "\<exists>v. calcCapAngle altitude term_angle = Inr v"
    by (simp add: calcCapAngle_nonneg_alt)
qed

theorem calcCapAngle_raises_witness:
  "(0::real) \<le> 0 \<and> (\<exists>v. calcCapAngle 0 90 = Inr v) \<and> calcCapAngle 0 90 \<noteq> Inl ValueError \<and>
   calcCapAngle (- 9000) 0 = Inl ValueError"
  using calcCapAngle_raises [of 0 90] calcCapAngle_raises [of "- 9000" 0]
  by (simp add: R_MEAN_def to_rads_def RIGHT_ANGLE_def)
section \<open>The accumulator and the driver: proofs\<close>

lemma set_fold_insert: "set (fold List.insert cells cs) = set cells \<union> set cs"
  by (induction cells arbitrary: cs) auto

lemma distinct_fold_insert: "distinct cs \<Longrightarrow> distinct (fold List.insert cells cs)"
  by (induction cells arbitrary: cs) auto

lemma snd_sat_body: "snd (sat_body L sat (out, cs)) =
    (case sat_cells L sat of Inl e \<Rightarrow> Inl e | Inr cells \<Rightarrow> Inr (fold List.insert cells cs))"
  by (simp add: sat_body_def sat_cells_def Let_def split: sum.splits prod.splits)

lemma snd_sat_loop: "snd (sat_loop L sats (out, cs)) = gather L sats cs"
proof (induction sats arbitrary: out cs)
  case Nil
  show ?case by simp
next
  case (Cons sat sats)
  obtain out' r where b: "sat_body L sat (out, cs) = (out', r)" by (cases "sat_body L sat (out, cs)")
  then have r: "r = (case sat_cells L sat of Inl e \<Rightarrow> Inl e | Inr cells \<Rightarrow> Inr (fold List.insert cells cs))"
    using snd_sat_body [of L sat out cs] by simp
  show ?case
    using b r Cons.IH by (simp split: sum.splits)
qed

lemma snd_step: "snd (step L sa start i (out, cov)) =
    (case gather L (sa (start + int i)) [] of Inl e \<Rightarrow> Inl e | Inr cs \<Rightarrow> Inr (accumulate cov cs))"
proof -
  let ?out1 = "if i mod 30 = 0 then out @ [PrintTime (start + int i)] else out"
  obtain out2 r where b: "sat_loop L (sa (start + int i)) (?out1, []) = (out2, r)"
    by (cases "sat_loop L (sa (start + int i)) (?out1, [])")
  then have "r = gather L (sa (start + int i)) []"
    using snd_sat_loop [of L "sa (start + int i)" ?out1 "[]"] by simp
  then show ?thesis
    using b by (simp add: step_def Let_def split: sum.splits)
qed

lemma snd_time_loop:
  "snd (time_loop L sa start steps (out, cov)) = run L sa (map (\<lambda>i. start + int i) steps) cov"
proof (induction steps arbitrary: out cov)
  case Nil
  show ?case by simp
next
  case (Cons i steps)
  obtain out' r where b: "step L sa start i (out, cov) = (out', r)"
    by (cases "step L sa start i (out, cov)")
  then have "r = (case gather L (sa (start + int i)) [] of Inl e \<Rightarrow> Inl e | Inr cs \<Rightarrow> Inr (accumulate cov cs))"
    using snd_step [of L sa start i out cov] by simp
  then show ?case
    using b Cons.IH by (simp split: sum.splits)
qed

lemma gather_set:
  "gather L sats cs = Inr cs' \<Longrightarrow> set cs' = set cs \<union> {c. covered L sats c}"
proof (induction sats arbitrary: cs)
  case Nil
  then show ?case by auto
next
  case (Cons sat sats)
  then obtain cells where c: "sat_cells L sat = Inr cells"
    and g: "gather L sats (fold List.insert cells cs) = Inr cs'"
    by (auto split: sum.splits)
  from Cons.IH [OF g] show ?case
    using c by (auto simp: set_fold_insert covers_def)
qed

lemma gather_distinct:
  "gather L sats cs = Inr cs' \<Longrightarrow> distinct cs \<Longrightarrow> distinct cs'"
proof (induction sats arbitrary: cs)
  case Nil
  then show ?case by auto
next
  case (Cons sat sats)
  then obtain cells where c: "sat_cells L sat = Inr cells"
    and g: "gather L sats (fold List.insert cells cs) = Inr cs'"
    by (auto split: sum.splits)
  show ?case
    by (rule Cons.IH [OF g]) (simp add: distinct_fold_insert Cons.prems)
qed

lemma count_increment: "count (increment c cov) c' = (if c' = c then count cov c + 1 else count cov c')"
  by (simp add: increment_def count_def)

lemma count_accumulate:
  "distinct cs \<Longrightarrow> count (accumulate cov cs) c = count cov c + (if c \<in> set cs then 1 else 0)"
  unfolding accumulate_def
proof (induction cs arbitrary: cov)
  case Nil
  show ?case by simp
next
  case (Cons a cs)
  then show ?case by (auto simp: count_increment)
qed

lemma accumulate_other: "c \<notin> set cs \<Longrightarrow> accumulate cov cs c = cov c"
  unfolding accumulate_def
  by (induction cs arbitrary: cov) (auto simp: increment_def)

lemma dom_accumulate: "dom (accumulate cov cs) = dom cov \<union> set cs"
  unfolding accumulate_def
  by (induction cs arbitrary: cov) (auto simp: increment_def)

lemma lookup_accumulate:
  assumes "distinct cs"
  shows "accumulate cov cs c = (if c \<in> set cs then Some (count cov c + 1) else cov c)"
proof (cases "c \<in> set cs")
  case True
  then have "c \<in> dom (accumulate cov cs)" by (simp add: dom_accumulate)
  then obtain n where n: "accumulate cov cs c = Some n" by blast
  then have "count (accumulate cov cs) c = n" by (simp add: count_def)
  then have "n = count cov c + 1" using count_accumulate [OF assms, of cov c] True by simp
  then show ?thesis using n True by simp
next
  case False
  then show ?thesis by (simp add: accumulate_other)
qed

lemma step_result:
  assumes "step L sa start i (out, cov) = (out', Inr cov')"
  shows "cov' c = (if covered L (sa (start + int i)) c then Some (count cov c + 1) else cov c)"
proof -
  have "snd (step L sa start i (out, cov)) = Inr cov'" using assms by simp
  then obtain cs where g: "gather L (sa (start + int i)) [] = Inr cs"
    and c: "cov' = accumulate cov cs"
    by (auto simp: snd_step split: sum.splits)
  have "distinct cs" using gather_distinct [OF g] by simp
  moreover have "set cs = {c. covered L (sa (start + int i)) c}" using gather_set [OF g] by simp
  ultimately show ?thesis using c by (simp add: lookup_accumulate)
qed

lemma run_covered_count:
  assumes "run L sa ts cov = Inr cov'" and "\<forall>t \<in> set ts. covered L (sa t) c"
  shows "count cov' c = count cov c + int (length ts)"
  using assms
proof (induction ts arbitrary: cov)
  case Nil
  then show ?case by simp
next
  case (Cons t ts)
  from Cons.prems(1) obtain cs where g: "gather L (sa t) [] = Inr cs"
    and r: "run L sa ts (accumulate cov cs) = Inr cov'"
    by (auto split: sum.splits)
  have d: "distinct cs" using gather_distinct [OF g] by simp
  have "c \<in> set cs" using gather_set [OF g] Cons.prems(2) by simp
  then have "count (accumulate cov cs) c = count cov c + 1"
    using count_accumulate [OF d, of cov c] by simp
  moreover have "count cov' c = count (accumulate cov cs) c + int (length ts)"
    using Cons.IH [OF r] Cons.prems(2) by simp
  ultimately show ?case by simp
qed

lemma time_loop_covered_count:
  assumes "time_loop L sa start [0..<n] (out, cov) = (out', Inr final)"
    and "\<And>i. i < n \<Longrightarrow> covered L (sa (start + int i)) c"
  shows "count final c = count cov c + int n"
proof -
  have "snd (time_loop L sa start [0..<n] (out, cov)) = Inr final" using assms(1) by simp
  then have "run L sa (map (\<lambda>i. start + int i) [0..<n]) cov = Inr final"
    by (simp add: snd_time_loop)
  moreover have "\<forall>t \<in> set (map (\<lambda>i. start + int i) [0..<n]). covered L (sa t) c"
    using assms(2) by auto
  ultimately have "count final c = count cov c + int (length (map (\<lambda>i. start + int i) [0..<n]))"
    by (rule run_covered_count)
  then show ?thesis by simp
qed

text \<open>
  Claim C1. A step that ends without an exception sets the count of every cell in the
  union of its satellites' cell sets to the old count plus 1, a missing cell counting 0,
  and leaves every other cell as it was: the count of a cell rises by at most 1 in a
  step, however many satellites cover it. A cell covered in each of the \<open>n\<close> steps of a
  run has its count raised by \<open>n\<close>; in the run of a process, which starts from the empty
  histogram and has 360 steps, it ends at 360.
\<close>

theorem one_increment_per_step:
  "(step L sa start i (out, cov) = (out1, Inr cov') \<longrightarrow>
      cov' c = (if covered L (sa (start + int i)) c then Some (count cov c + 1) else cov c) \<and>
      count cov' c \<le> count cov c + 1) \<and>
   (time_loop L sa start [0..<n] (out, cov) = (out2, Inr final) \<and>
      (\<forall>i < n. covered L (sa (start + int i)) c) \<longrightarrow>
      count final c = count cov c + int n) \<and>
   (main_loop L sa process = (out3, Inr written) \<and>
      (\<forall>i < TIME_PER_PROCESS. covered L (sa (START_TIME process + int i)) c) \<longrightarrow>
      written c = Some 360)"
proof (intro conjI impI)
  assume s: "step L sa start i (out, cov) = (out1, Inr cov')"
  show r: "cov' c = (if covered L (sa (start + int i)) c then Some (count cov c + 1) else cov c)"
    by (rule step_result [OF s])
  show "count cov' c \<le> count cov c + 1"
    by (simp add: count_def r split: option.splits)
next
  assume a: "time_loop L sa start [0..<n] (out, cov) = (out2, Inr final) \<and>
      (\<forall>i < n. covered L (sa (start + int i)) c)"
  show "count final c = count cov c + int n"
    by (rule time_loop_covered_count) (use a in auto)
next
  assume a: "main_loop L sa process = (out3, Inr written) \<and>
      (\<forall>i < TIME_PER_PROCESS. covered L (sa (START_TIME process + int i)) c)"
  have "count written c = count Map.empty c + int TIME_PER_PROCESS"
    by (rule time_loop_covered_count [where out = "[]"]) (use a in \<open>auto simp: main_loop_def\<close>)
  then have "count written c = 360" by (simp add: count_def TIME_PER_PROCESS_def)
  then show "written c = Some 360" by (simp add: count_def split: option.splits)
qed

lemma needs_split_const: "needs_split (map (\<lambda>a. p) xs) = (xs \<noteq> [] \<and> 180 < fst p)"
  by (induction xs) auto

lemma sat_cells_stay:
  "sat_cells (test_libs stay Inr (\<lambda>g. Inr cs)) sat0 = Inr cs"
proof -
  have "calcCapAngle 550 35 = Inr (cap_closed 550 35)"
    by (rule calcCapAngle_nonneg_alt) simp
  then show ?thesis
    by (simp add: sat_cells_def sat0_def get_cell_ids_h3_def footprint_ring_def test_libs_def
        stay_def needs_split_const Let_def)
qed

lemma run_total:
  assumes "\<forall>t. \<exists>cs. gather L (sa t) [] = Inr cs"
  shows "\<exists>cov'. run L sa ts cov = Inr cov'"
proof (induction ts arbitrary: cov)
  case Nil
  show ?case by simp
next
  case (Cons t ts)
  obtain cs where "gather L (sa t) [] = Inr cs" using assms by blast
  then show ?case using Cons.IH by simp
qed

lemma time_loop_total:
  assumes "\<forall>t. \<exists>cs. gather L (sa t) [] = Inr cs"
  shows "\<exists>out' cov'. time_loop L sa start steps st = (out', Inr cov')"
proof -
  obtain cov' where "run L sa (map (\<lambda>i. start + int i) steps) (snd st) = Inr cov'"
    using run_total [of L sa] assms by blast
  then have "snd (time_loop L sa start steps (fst st, snd st)) = Inr cov'"
    by (simp only: snd_time_loop)
  then show ?thesis by (cases "time_loop L sa start steps st") auto
qed

lemma step_total:
  assumes "\<exists>cs. gather L (sa (start + int i)) [] = Inr cs"
  shows "\<exists>out' cov'. step L sa start i st = (out', Inr cov')"
proof -
  obtain cs where "gather L (sa (start + int i)) [] = Inr cs" using assms by blast
  then have "snd (step L sa start i (fst st, snd st)) = Inr (accumulate (snd st) cs)"
    by (simp only: snd_step sum.case)
  then show ?thesis by (cases "step L sa start i st") auto
qed

theorem one_increment_per_step_witness:
  "(\<exists>out' cov'. step (test_libs stay Inr (\<lambda>g. Inr [1, 2])) (\<lambda>t. [sat0, sat0]) 0 0 ([], Map.empty)
        = (out', Inr cov') \<and> cov' 1 = Some 1 \<and> cov' 3 = None \<and> count cov' 1 \<le> 1) \<and>
   (\<exists>out' cov'. time_loop (test_libs stay Inr (\<lambda>g. Inr [1, 2])) (\<lambda>t. [sat0, sat0]) 0 [0..<3]
        ([], Map.empty) = (out', Inr cov') \<and> count cov' 1 = 3) \<and>
   (\<exists>out' cov'. main_loop (test_libs stay Inr (\<lambda>g. Inr [1, 2])) (\<lambda>t. [sat0, sat0]) 2
        = (out', Inr cov') \<and> cov' 1 = Some 360)"
proof -
  let ?L = "test_libs stay Inr (\<lambda>g. Inr [1, 2::nat])"
  let ?sa = "\<lambda>t::int. [sat0, sat0]"
  have c1: "covered ?L (?sa t) 1" for t
    by (simp add: covers_def sat_cells_stay)
  have c3: "\<not> covered ?L (?sa t) 3" for t
    by (simp add: covers_def sat_cells_stay)
  have tot: "\<forall>t. \<exists>cs. gather ?L (?sa t) [] = Inr cs"
    by (simp add: sat_cells_stay)
  obtain o1 h1 where s1: "step ?L ?sa 0 0 ([], Map.empty) = (o1, Inr h1)"
    using step_total [of ?L ?sa 0 0 "([], Map.empty)"] tot by blast
  obtain o2 h2 where s2: "time_loop ?L ?sa 0 [0..<3] ([], Map.empty) = (o2, Inr h2)"
    using time_loop_total [of ?L ?sa 0 "[0..<3]" "([], Map.empty)"] tot by blast
  obtain o3 h3 where s3: "main_loop ?L ?sa 2 = (o3, Inr h3)"
    unfolding main_loop_def
    using time_loop_total [of ?L ?sa "START_TIME 2" "[0..<TIME_PER_PROCESS]" "([], Map.empty)"] tot
    by blast
  have "h1 1 = Some 1 \<and> count h1 1 \<le> 1"
    using one_increment_per_step [of ?L ?sa 0 0 "[]" Map.empty o1 h1 1] s1 c1
    by (simp add: count_def)
  moreover have "h1 3 = None"
    using one_increment_per_step [of ?L ?sa 0 0 "[]" Map.empty o1 h1 3] s1 c3
    by simp
  moreover have "count h2 1 = 3"
    using one_increment_per_step [of ?L ?sa 0 0 "[]" Map.empty _ _ 1 3 o2 h2] s2 c1
    by (simp add: count_def)
  moreover have "h3 1 = Some 360"
    using one_increment_per_step [of ?L ?sa _ _ _ _ _ _ 1 _ _ _ 2 o3 h3] s3 c1
    by simp
  ultimately show ?thesis using s1 s2 s3 by blast
qed

subsection \<open>Partitions and their merge\<close>

lemma count_merge: "count (merge a b) c = count a c + count b c"
  by (simp add: merge_def count_def split: option.splits)

lemma merge_empty_right: "merge a Map.empty = a"
  by (rule ext) (simp add: merge_def split: option.splits)

lemma increment_merge: "increment c (merge a b) = merge a (increment c b)"
proof (rule ext)
  fix k
  show "increment c (merge a b) k = merge a (increment c b) k"
  proof (cases "k = c")
    case True
    have "increment c (merge a b) c = Some (count a c + count b c + 1)"
      by (simp add: increment_def count_merge)
    moreover have "merge a (increment c b) c = Some (count a c + count b c + 1)"
      by (simp add: merge_def increment_def count_def split: option.splits)
    ultimately show ?thesis using True by simp
  next
    case False
    then show ?thesis by (simp add: merge_def increment_def split: option.splits)
  qed
qed

lemma accumulate_merge: "accumulate (merge a b) cs = merge a (accumulate b cs)"
  unfolding accumulate_def
  by (induction cs arbitrary: b) (simp_all add: increment_merge)

lemma run_merge:
  "run L sa ts (merge a b) = (case run L sa ts b of Inl e \<Rightarrow> Inl e | Inr h \<Rightarrow> Inr (merge a h))"
proof (induction ts arbitrary: b)
  case Nil
  show ?case by simp
next
  case (Cons t ts)
  show ?case
    by (simp add: accumulate_merge Cons.IH split: sum.splits)
qed

lemma run_append:
  "run L sa (ts1 @ ts2) cov = (case run L sa ts1 cov of Inl e \<Rightarrow> Inl e | Inr h \<Rightarrow> run L sa ts2 h)"
  by (induction ts1 arbitrary: cov) (simp_all split: sum.splits)

lemma run_append_empty:
  "run L sa (ts1 @ ts2) Map.empty = merge_runs (run L sa ts1 Map.empty) (run L sa ts2 Map.empty)"
proof (cases "run L sa ts1 Map.empty")
  case (Inl e)
  then show ?thesis by (simp add: run_append merge_runs_def)
next
  case (Inr h)
  have "run L sa ts2 h = run L sa ts2 (merge h Map.empty)" by (simp add: merge_empty_right)
  also have "\<dots> = (case run L sa ts2 Map.empty of Inl e \<Rightarrow> Inl e | Inr h' \<Rightarrow> Inr (merge h h'))"
    by (rule run_merge)
  finally show ?thesis using Inr by (simp add: run_append merge_runs_def)
qed

lemma minutes_append:
  "map (\<lambda>i. s + int i) [0..<m + n] =
     map (\<lambda>i. s + int i) [0..<m] @ map (\<lambda>i. (s + int m) + int i) [0..<n]"
proof -
  have a: "[0..<m + n] = [0..<m] @ [m..<m + n]"
    by (rule upt_add_eq_append) simp
  have "map (\<lambda>i. i + m) [0..<n] = [m..<n + m]"
    by (rule map_add_upt)
  then have b: "[m..<m + n] = map (\<lambda>i. i + m) [0..<n]"
    by (simp only: add.commute)
  have c: "map (\<lambda>i. s + int i) (map (\<lambda>i. i + m) [0..<n]) = map (\<lambda>i. (s + int m) + int i) [0..<n]"
    by (simp add: o_def add.assoc add.commute)
  show ?thesis
    by (simp only: a b map_append c)
qed

lemma snd_window: "snd (window L sa start n) = run L sa (map (\<lambda>i. start + int i) [0..<n]) Map.empty"
  by (simp add: window_def snd_time_loop)

lemma window_append:
  "snd (window L sa start (m + n)) =
     merge_runs (snd (window L sa start m)) (snd (window L sa (start + int m) n))"
  by (simp only: snd_window minutes_append run_append_empty)

lemma snd_main_loop: "snd (main_loop L sa p) = run L sa (simulated_minutes p) Map.empty"
  by (simp add: main_loop_def snd_time_loop simulated_minutes_def)

lemma main_loop_window: "main_loop L sa p = window L sa (p * 360) 360"
  by (simp add: main_loop_def window_def START_TIME_def TIME_PER_PROCESS_def del: upt_rec_numeral)

lemma set_simulated_minutes: "set (simulated_minutes p) = {p * 360 ..< (p + 1) * 360}"
proof -
  have "set (simulated_minutes p) = (\<lambda>i. p * 360 + int i) ` {0..<360}"
    by (simp add: simulated_minutes_def START_TIME_def TIME_PER_PROCESS_def del: upt_rec_numeral)
  also have "\<dots> = {p * 360 ..< (p + 1) * 360}"
  proof (intro set_eqI iffI)
    fix t assume "t \<in> (\<lambda>i. p * 360 + int i) ` {0..<360}"
    then show "t \<in> {p * 360 ..< (p + 1) * 360}" by (auto simp: algebra_simps)
  next
    fix t assume t: "t \<in> {p * 360 ..< (p + 1) * 360}"
    then have "t = p * 360 + int (nat (t - p * 360))" "nat (t - p * 360) < 360"
      by (auto simp: algebra_simps)
    then show "t \<in> (\<lambda>i. p * 360 + int i) ` {0..<360}"
      by (metis atLeastLessThan_iff image_eqI zero_le)
  qed
  finally show ?thesis .
qed

lemma distinct_simulated_minutes: "distinct (simulated_minutes p)"
  by (simp add: simulated_minutes_def distinct_map inj_on_def)

lemma full_window_quarters:
  "snd (full_window L sa) =
     merge_runs (merge_runs (merge_runs (snd (main_loop L sa 0)) (snd (main_loop L sa 1)))
       (snd (main_loop L sa 2))) (snd (main_loop L sa 3))"
proof -
  have a: "snd (window L sa 0 (1080 + 360)) =
      merge_runs (snd (window L sa 0 1080)) (snd (window L sa (0 + int 1080) 360))"
    by (rule window_append)
  have b: "snd (window L sa 0 (720 + 360)) =
      merge_runs (snd (window L sa 0 720)) (snd (window L sa (0 + int 720) 360))"
    by (rule window_append)
  have c: "snd (window L sa 0 (360 + 360)) =
      merge_runs (snd (window L sa 0 360)) (snd (window L sa (0 + int 360) 360))"
    by (rule window_append)
  show ?thesis
    using a b c by (simp add: full_window_def main_loop_window)
qed

text \<open>
  Claim C4. Process \<open>p\<close> simulates the minutes \<open>p \<cdot> 360\<close> up to, not including,
  \<open>(p + 1) \<cdot> 360\<close>, each once; two different processes share no minute, and processes 0
  to 3 together have the minutes 0 to 1439. For a fixed position provider, the run over
  the whole day gives the cell-by-cell sum of the four histograms (or fails as the first
  failing process does), and the run over two quarters in a row gives the sum of the two.
\<close>

theorem partitions_cover_and_merge:
  "snd (main_loop L sa p) = run L sa (simulated_minutes p) Map.empty \<and>
   set (simulated_minutes p) = {p * 360 ..< (p + 1) * 360} \<and>
   distinct (simulated_minutes p) \<and>
   (p \<noteq> q \<longrightarrow> set (simulated_minutes p) \<inter> set (simulated_minutes q) = {}) \<and>
   set (simulated_minutes 0) \<union> set (simulated_minutes 1) \<union> set (simulated_minutes 2)
     \<union> set (simulated_minutes 3) = {0 ..< 1440} \<and>
   snd (full_window L sa) =
     merge_runs (merge_runs (merge_runs (snd (main_loop L sa 0)) (snd (main_loop L sa 1)))
       (snd (main_loop L sa 2))) (snd (main_loop L sa 3)) \<and>
   snd (window L sa (START_TIME p) (TIME_PER_PROCESS + TIME_PER_PROCESS)) =
     merge_runs (snd (main_loop L sa p)) (snd (main_loop L sa (p + 1)))"
proof (intro conjI impI)
  show "snd (main_loop L sa p) = run L sa (simulated_minutes p) Map.empty"
    by (rule snd_main_loop)
  show "set (simulated_minutes p) = {p * 360 ..< (p + 1) * 360}"
    by (rule set_simulated_minutes)
  show "distinct (simulated_minutes p)"
    by (rule distinct_simulated_minutes)
  show "set (simulated_minutes 0) \<union> set (simulated_minutes 1) \<union> set (simulated_minutes 2)
     \<union> set (simulated_minutes 3) = {0 ..< 1440}"
    by (auto simp: set_simulated_minutes)
  show "snd (full_window L sa) =
     merge_runs (merge_runs (merge_runs (snd (main_loop L sa 0)) (snd (main_loop L sa 1)))
       (snd (main_loop L sa 2))) (snd (main_loop L sa 3))"
    by (rule full_window_quarters)
  have "snd (window L sa (p * 360) (360 + 360)) =
      merge_runs (snd (window L sa (p * 360) 360)) (snd (window L sa (p * 360 + int 360) 360))"
    by (rule window_append)
  then show "snd (window L sa (START_TIME p) (TIME_PER_PROCESS + TIME_PER_PROCESS)) =
     merge_runs (snd (main_loop L sa p)) (snd (main_loop L sa (p + 1)))"
    by (simp add: main_loop_window START_TIME_def TIME_PER_PROCESS_def algebra_simps)
next
  assume "p \<noteq> q"
  then have "p < q \<or> q < p" by auto
  then show "set (simulated_minutes p) \<inter> set (simulated_minutes q) = {}"
    by (auto simp: set_simulated_minutes)
qed

theorem partitions_cover_and_merge_witness:
  "(0::int) \<noteq> 1 \<and> set (simulated_minutes 0) \<inter> set (simulated_minutes 1) = {} \<and>
   set (simulated_minutes 1) = {1 * 360 ..< (1 + 1) * 360}"
proof -
  have h: "(0::int) \<noteq> 1" by simp
  show ?thesis
    using h partitions_cover_and_merge [of "test_libs stay Inr (\<lambda>g. Inr [])" "\<lambda>t. []" 0 1]
      partitions_cover_and_merge [of "test_libs stay Inr (\<lambda>g. Inr [])" "\<lambda>t. []" 1 0]
    by blast
qed
section \<open>The rasterizer: proofs\<close>












subsection \<open>The antimeridian split\<close>

lemma split_edge_fst_mono: "set p1 \<subseteq> set (fst (split_edge ip f s (p1, p2)))"
  by (auto simp: split_edge_def Let_def)

lemma split_edge_snd_mono: "set p2 \<subseteq> set (snd (split_edge ip f s (p1, p2)))"
  by (auto simp: split_edge_def Let_def)

lemma split_loop_snd_mono: "set (snd polys) \<subseteq> set (snd (split_loop ip polygon polys))"
proof (induction ip polygon polys rule: split_loop.induct)
  case (1 ip first second rest polys)
  obtain p1 p2 where p: "polys = (p1, p2)" by (cases polys)
  have "set (snd polys) \<subseteq> set (snd (split_edge ip first second polys))"
    unfolding p using split_edge_snd_mono [of p2 ip first second p1] by simp
  then show ?case using "1.IH" by auto
qed simp_all

lemma split_edge_at_180:
  "fst first = 180 \<Longrightarrow> split_edge ip first second (p1, p2) = (p1, p2 @ [first])"
  by (simp add: split_edge_def straddles_def)

lemma split_loop_vertex_180:
  "i + 1 < length polygon \<Longrightarrow> fst (polygon ! i) = 180 \<Longrightarrow>
     polygon ! i \<in> set (snd (split_loop ip polygon polys))"
proof (induction ip polygon polys arbitrary: i rule: split_loop.induct)
  case (1 ip first second rest polys)
  obtain p1 p2 where p: "polys = (p1, p2)" by (cases polys)
  show ?case
  proof (cases i)
    case 0
    then have "fst first = 180" using "1.prems" by simp
    then have "first \<in> set (snd (split_edge ip first second polys))"
      unfolding p by (simp add: split_edge_at_180)
    then have "first \<in> set (snd (split_loop ip (second # rest) (split_edge ip first second polys)))"
      using split_loop_snd_mono by blast
    then show ?thesis using 0 by simp
  next
    case (Suc j)
    then have "j + 1 < length (second # rest)" "fst ((second # rest) ! j) = 180"
      using "1.prems" by auto
    then have "(second # rest) ! j \<in> set (snd (split_loop ip (second # rest) (split_edge ip first second polys)))"
      by (rule "1.IH")
    then show ?thesis using Suc by simp
  qed
qed simp_all

lemma split_edge_fst_members:
  "pt \<in> set (fst (split_edge ip f s (p1, p2))) \<Longrightarrow>
     pt \<in> set p1 \<or> (pt = f \<and> fst f < 180 \<and> \<not> straddles f s) \<or>
     (straddles f s \<and> pt = new_point ip f s)"
  by (auto simp: split_edge_def Let_def new_point_def split: if_splits)

lemma split_loop_fst_members:
  "pt \<in> set (fst (split_loop ip polygon polys)) \<Longrightarrow>
     pt \<in> set (fst polys) \<or> (pt \<in> set polygon \<and> fst pt < 180) \<or>
     (\<exists>first second. straddles first second \<and> pt = new_point ip first second)"
proof (induction ip polygon polys rule: split_loop.induct)
  case (1 ip first second rest polys)
  obtain p1 p2 where p: "polys = (p1, p2)" by (cases polys)
  from "1.IH" [OF "1.prems" [simplified]]
  consider "pt \<in> set (fst (split_edge ip first second polys))"
    | "pt \<in> set (second # rest) \<and> fst pt < 180"
    | "\<exists>first second. straddles first second \<and> pt = new_point ip first second"
    by blast
  then show ?case
  proof cases
    case 1
    then have "pt \<in> set p1 \<or> (pt = first \<and> fst first < 180 \<and> \<not> straddles first second) \<or>
        (straddles first second \<and> pt = new_point ip first second)"
      unfolding p by (rule split_edge_fst_members)
    moreover have "first \<in> set (first # second # rest)" by simp
    ultimately show ?thesis
      unfolding p fst_conv by blast
  next
    case 2
    then show ?thesis by auto
  next
    case 3
    then show ?thesis by blast
  qed
qed simp_all


lemma split_rings_members:
  assumes "split_rings ip polygon = Inr (ringA, ringB)"
  shows "set ringA = set (fst (split_loop ip polygon ([], [])))"
    and "set ringB = wrap_point ` set (snd (split_loop ip polygon ([], [])))"
  using assms
  by (auto simp: split_rings_def split: prod.splits list.splits)

text \<open>
  Claim C10. In the antimeridian split a vertex at longitude exactly 180 starts no
  crossing and is appended to ring B, where it is remapped to longitude exactly -180; an
  edge that ends at longitude exactly 180 inserts no crossing point either; the loop
  appends a vertex to ring A only when its longitude is below 180. For the rings the
  function returns: each vertex at 180 that starts an edge is in ring B at -180, and each
  member of ring A is a vertex of the polygon with longitude below 180 or a crossing
  point.
\<close>

theorem vertex_at_180_goes_to_ring_B:
  "(fst first = 180 \<longrightarrow>
      split_edge ip first second (poly1, poly2) = (poly1, poly2 @ [first]) \<and>
      wrap_point first = (- 180, snd first)) \<and>
   (fst second = 180 \<longrightarrow>
      split_edge ip first second (poly1, poly2) =
        (if fst first < 180 then (poly1 @ [first], poly2) else (poly1, poly2 @ [first]))) \<and>
   (fst (split_edge ip first second (poly1, poly2)) = poly1 @ [first] \<longrightarrow> fst first < 180) \<and>
   (split_rings ip polygon = Inr (ringA, ringB) \<longrightarrow>
      (\<forall>i. i + 1 < length polygon \<and> fst (polygon ! i) = 180 \<longrightarrow>
         (- 180, snd (polygon ! i)) \<in> set ringB) \<and>
      (\<forall>pt \<in> set ringA. (pt \<in> set polygon \<and> fst pt < 180) \<or>
         (\<exists>f s. straddles f s \<and> pt = new_point ip f s)))"
proof (intro conjI impI allI ballI)
  assume a: "fst first = 180"
  show "split_edge ip first second (poly1, poly2) = (poly1, poly2 @ [first])"
    using a by (rule split_edge_at_180)
  show "wrap_point first = (- 180, snd first)"
    using a by (simp add: wrap_point_def)
next
  assume "fst second = 180"
  then show "split_edge ip first second (poly1, poly2) =
        (if fst first < 180 then (poly1 @ [first], poly2) else (poly1, poly2 @ [first]))"
    by (simp add: split_edge_def straddles_def)
next
  assume e: "fst (split_edge ip first second (poly1, poly2)) = poly1 @ [first]"
  show "fst first < 180"
  proof (cases "straddles first second")
    case True
    then have "first = (180, ip 180 (fst first, fst second) (snd first, snd second))"
      using e by (simp add: split_edge_def Let_def)
    then have "fst first = 180" by (metis fst_conv)
    then show ?thesis using True by (simp add: straddles_def)
  next
    case False
    then show ?thesis using e by (simp add: split_edge_def split: if_splits)
  qed
next
  fix i
  assume r: "split_rings ip polygon = Inr (ringA, ringB)"
    and i: "i + 1 < length polygon \<and> fst (polygon ! i) = 180"
  have "polygon ! i \<in> set (snd (split_loop ip polygon ([], [])))"
    using i by (intro split_loop_vertex_180) auto
  then have "wrap_point (polygon ! i) \<in> set ringB"
    using split_rings_members(2) [OF r] by blast
  then show "(- 180, snd (polygon ! i)) \<in> set ringB"
    using i by (simp add: wrap_point_def)
next
  fix pt
  assume r: "split_rings ip polygon = Inr (ringA, ringB)" and "pt \<in> set ringA"
  then have "pt \<in> set (fst (split_loop ip polygon ([], [])))"
    using split_rings_members(1) [OF r] by simp
  then show "(pt \<in> set polygon \<and> fst pt < 180) \<or>
         (\<exists>f s. straddles f s \<and> pt = new_point ip f s)"
    using split_loop_fst_members [of pt ip polygon "([], [])"] by simp
qed

lemma split_rings_example:
  "split_rings np_interp [(170, 0), (180, 5), (190, 10), (190, 0), (170, 0)] =
     Inr ([(170, 0), (180, 0), (170, 0)], [(- 180, 5), (- 170, 10), (- 180, 0), (- 180, 5)])"
  by (simp add: split_rings_def split_edge_def straddles_def np_interp_def wrap_point_def)

theorem vertex_at_180_goes_to_ring_B_witness:
  "split_edge np_interp (180, 5) (190, 10) ([], []) = ([], [(180, 5)]) \<and>
   wrap_point (180, 5) = (- 180, 5) \<and>
   split_edge np_interp (170, 0) (180, 5) ([], []) = ([(170, 0)], []) \<and>
   split_rings np_interp [(170, 0), (180, 5), (190, 10), (190, 0), (170, 0)] =
     Inr ([(170, 0), (180, 0), (170, 0)], [(- 180, 5), (- 170, 10), (- 180, 0), (- 180, 5)]) \<and>
   (- 180, 5) \<in> set [(- 180, 5), (- 170, 10), (- 180, 0), (- 180, 5 :: real)] \<and>
   (\<exists>f s. straddles f s \<and> (180, 0) = new_point np_interp f s)"
proof -
  let ?polygon = "[(170, 0), (180, 5), (190, 10), (190, 0), (170, 0 :: real)] :: ring"
  let ?A = "[(170, 0), (180, 0), (170, 0)] :: ring"
  let ?B = "[(- 180, 5), (- 170, 10), (- 180, 0), (- 180, 5)] :: ring"
  note a = vertex_at_180_goes_to_ring_B [where first = "(180, 5)" and second = "(190, 10)"
      and ip = np_interp and ?poly1.0 = "[]" and ?poly2.0 = "[]" and polygon = ?polygon
      and ringA = ?A and ringB = ?B]
  note b = vertex_at_180_goes_to_ring_B [where first = "(170, 0)" and second = "(180, 5)"
      and ip = np_interp and ?poly1.0 = "[]" and ?poly2.0 = "[]" and polygon = ?polygon
      and ringA = ?A and ringB = ?B]
  have i: "(1::nat) + 1 < length ?polygon \<and> fst (?polygon ! 1) = 180" by simp
  have "split_edge np_interp (180, 5) (190, 10) ([], []) = ([], [(180, 5)]) \<and>
      wrap_point (180, 5) = (- 180, 5)"
    using a by simp
  moreover have "split_edge np_interp (170, 0) (180, 5) ([], []) = ([(170, 0)], [])"
    using b by simp
  moreover have "(- 180, snd (?polygon ! 1)) \<in> set ?B"
    using a split_rings_example i by blast
  moreover have "\<forall>pt \<in> set ?A. pt \<in> set ?polygon \<and> fst pt < 180 \<or>
      (\<exists>f s. straddles f s \<and> pt = new_point np_interp f s)"
    using a split_rings_example by blast
  then have "\<exists>f s. straddles f s \<and> (180, 0) = new_point np_interp f s"
    by simp
  ultimately show ?thesis using split_rings_example by simp
qed

text \<open>
  Claim C5 says that the vertices below 180 go to ring A and those above 180 to ring B.
  For an edge that straddles 180 the loop appends the crossing point only, so the vertex
  that starts the edge goes to neither ring. On the rectangle from 170 to 190 degrees,
  vertex \<open>(170, 0)\<close> is missing from ring A and vertex \<open>(190, 10)\<close>, that is
  \<open>(-170, 10)\<close>, from ring B.
\<close>

theorem antimeridian_split_drops_vertices:
  "split_rings np_interp [(170, 0), (190, 0), (190, 10), (170, 10), (170, 0)] =
     Inr ([(180, 0), (180, 10), (170, 10), (180, 0)],
          [(- 180, 0), (- 170, 0), (- 180, 10), (- 180, 0)])"
  by (simp add: split_rings_def split_edge_def straddles_def np_interp_def wrap_point_def)

text \<open>
  The claim's crossing latitude is interpolated on the straight line. On an edge that
  crosses from above 180 to below, \<open>np.interp\<close> gets decreasing x-coordinates and returns the
  latitude of the second vertex: between \<open>(190, 10)\<close> and \<open>(170, 20)\<close> the crossing point
  is \<open>(180, 20)\<close>, not \<open>(180, 15)\<close>; on an edge from below 180 to above it is on the line.
\<close>

lemma crossing_latitude_by_direction:
  "new_point np_interp (190, 10) (170, 20) = (180, 20) \<and>
   new_point np_interp (170, 20) (190, 10) = (180, 15)"
  by (simp add: new_point_def np_interp_def)

lemma snd_main_loop_first:
  "gather L (sa (START_TIME p)) [] = Inl e \<Longrightarrow> snd (main_loop L sa p) = Inl e"
proof -
  assume g: "gather L (sa (START_TIME p)) [] = Inl e"
  have "[0..<TIME_PER_PROCESS] = 0 # [Suc 0..<TIME_PER_PROCESS]"
    by (rule upt_conv_Cons) (simp add: TIME_PER_PROCESS_def)
  then have "simulated_minutes p = START_TIME p # map (\<lambda>i. START_TIME p + int i) [Suc 0..<TIME_PER_PROCESS]"
    by (simp add: simulated_minutes_def)
  then show ?thesis using g by (simp add: snd_main_loop)
qed

lemma get_cell_ids_h3_unbound:
  assumes "polygon_mapping L (footprint_ring L lat lng angle) = Inl ValueError"
    and "\<not> needs_split (footprint_ring L lat lng angle)"
  shows "get_cell_ids_h3 L lat lng angle =
     ([PrintLatLng lat lng, PrintPolygon (footprint_ring L lat lng angle)], Inl UnboundLocalError)"
  using assms by (simp add: get_cell_ids_h3_def Let_def)

lemma footprint_ring_stay:
  "footprint_ring (test_libs stay pm pf) lat lng angle = map (\<lambda>a. (lng, lat)) (linspace 0 360 20)"
  by (simp add: footprint_ring_def test_libs_def stay_def Let_def)

text \<open>
  Claim C7 says that a failure inside the rasterizer is recovered as an empty
  contribution and never ends the run. When the polygon constructor raises ValueError
  and no vertex is beyond 180, the exception is caught and printed, \<open>mapping\<close> stays
  unbound, and the fill raises UnboundLocalError, which nothing catches: the run of the
  process ends with it.
\<close>

theorem degenerate_polygon_aborts_run:
  "get_cell_ids_h3 (test_libs stay (\<lambda>r. Inl ValueError) (\<lambda>g. Inr [7])) 0 0 (cap_closed 550 35) =
     ([PrintLatLng 0 0,
       PrintPolygon (footprint_ring (test_libs stay (\<lambda>r. Inl ValueError) (\<lambda>g. Inr [7])) 0 0
         (cap_closed 550 35))],
      Inl UnboundLocalError) \<and>
   snd (main_loop (test_libs stay (\<lambda>r. Inl ValueError) (\<lambda>g. Inr [7])) (\<lambda>t. [sat0]) 0)
     = Inl UnboundLocalError"
proof -
  let ?L = "test_libs stay (\<lambda>r. Inl ValueError) (\<lambda>g. Inr [7::nat])"
  have pm: "polygon_mapping ?L r = Inl ValueError" for r
    by (simp add: test_libs_def)
  have ns: "\<not> needs_split (footprint_ring ?L 0 0 angle)" for angle
    by (simp add: footprint_ring_stay needs_split_const)
  have g: "get_cell_ids_h3 ?L 0 0 angle =
     ([PrintLatLng 0 0, PrintPolygon (footprint_ring ?L 0 0 angle)], Inl UnboundLocalError)" for angle
    by (rule get_cell_ids_h3_unbound [OF pm ns])
  have "calcCapAngle 550 35 = Inr (cap_closed 550 35)"
    by (rule calcCapAngle_nonneg_alt) simp
  then have "sat_cells ?L sat0 = Inl UnboundLocalError"
    by (simp add: sat_cells_def sat0_def g)
  then have "gather ?L ((\<lambda>t. [sat0]) (START_TIME 0)) [] = Inl UnboundLocalError"
    by simp
  then have "snd (main_loop ?L (\<lambda>t. [sat0]) 0) = Inl UnboundLocalError"
    by (rule snd_main_loop_first)
  then show ?thesis using g by simp
qed

text \<open>
  Claim C8 says that an empty cell set from a rasterization that did not fail is raised
  or logged. The program builds the exception and drops it: for a satellite whose
  footprint fills to no cell, nothing is printed, nothing is raised, and the step goes
  on.
\<close>

theorem empty_region_is_silent:
  "get_cell_ids_h3 (test_libs stay Inr (\<lambda>g. Inr [])) 0 0 (cap_closed 550 35) = ([], Inr []) \<and>
   sat_body (test_libs stay Inr (\<lambda>g. Inr [])) sat0 ([], [7]) = ([], Inr [7]) \<and>
   step (test_libs stay Inr (\<lambda>g. Inr [])) (\<lambda>t. [sat0]) 0 1 ([], Map.empty) = ([], Inr Map.empty)"
proof -
  let ?L = "test_libs stay Inr (\<lambda>g. Inr ([]::nat list))"
  have g: "get_cell_ids_h3 ?L 0 0 angle = ([], Inr [])" for angle
    by (simp add: get_cell_ids_h3_def footprint_ring_stay needs_split_const Let_def)
      (simp add: test_libs_def)
  have c: "calcCapAngle 550 35 = Inr (cap_closed 550 35)"
    by (rule calcCapAngle_nonneg_alt) simp
  have b: "sat_body ?L sat0 (out, cs) = (out, Inr cs)" for out cs
    by (simp add: sat_body_def sat0_def c g)
  have "step ?L (\<lambda>t. [sat0]) 0 1 ([], Map.empty) = ([], Inr Map.empty)"
    by (simp add: step_def b accumulate_def)
  then show ?thesis using g b by simp
qed

end
